theory Spec2Isabelle
  imports Complex_Main
begin

unbundle bit_operations_syntax

section \<open>Deterministic hash-based A/B split (hash\_split.py)\<close>

text \<open>
  The development embeds the class \<open>ABSplitter\<close> of \<open>01_hash_split/hash_split.py\<close>:
  the method \<open>_hash_to_float\<close> (the uniform deriver) and the method \<open>get_group\<close>
  (validation, bucket scan and fallback). The pandas helpers \<open>assign_groups\<close>,
  \<open>check_distribution\<close> and \<open>quick_split\<close> only map \<open>get_group\<close> over a table and
  are not modelled.

  Conventions.
  \<^item> A Python \<open>str\<close> is modelled by the list of its UTF-8 bytes (\<open>string\<close>), which is
    what \<open>combined.encode()\<close> hands to the hash; the separator \<open>_\<close> is the single byte 95.
  \<^item> Python floats in \<open>get_group\<close> (the weights, their sum, the running cumulative
    boundary) are idealised as exact rationals. The one float that the program itself
    creates from integers, \<open>n / 2**64\<close>, is modelled exactly: Python rounds the quotient
    to the nearest binary64 value, ties to even, and that value is a rational.
  \<^item> Every exception is a value of type \<open>error\<close>; a call returns \<open>error + 'a\<close>.
\<close>

subsection \<open>SHA-256 (hashlib.sha256, FIPS 180-4) on 32-bit words kept as naturals\<close>

text \<open>
  \<open>hashlib\<close> is a library, not code of the repository. It is modelled here from the
  standard so that the deriver can be run on concrete inputs. Bytes and 32-bit words are
  natural numbers, with the reduction modulo \<open>2 ^ 32\<close> written out.
\<close>

definition add32 :: "nat \<Rightarrow> nat \<Rightarrow> nat" where
  "add32 x y = (x + y) mod 2 ^ 32"

definition shr :: "nat \<Rightarrow> nat \<Rightarrow> nat" where
  "shr n x = x div 2 ^ n"

definition rotr :: "nat \<Rightarrow> nat \<Rightarrow> nat" where
  "rotr n x = x div 2 ^ n + (x mod 2 ^ n) * 2 ^ (32 - n)"

definition not32 :: "nat \<Rightarrow> nat" where
  "not32 x = 2 ^ 32 - 1 - x"

definition ch :: "nat \<Rightarrow> nat \<Rightarrow> nat \<Rightarrow> nat" where
  "ch e f g = (e AND f) XOR (not32 e AND g)"

definition maj :: "nat \<Rightarrow> nat \<Rightarrow> nat \<Rightarrow> nat" where
  "maj a b c = (a AND b) XOR (a AND c) XOR (b AND c)"

definition big_sigma0 :: "nat \<Rightarrow> nat" where
  "big_sigma0 x = rotr 2 x XOR rotr 13 x XOR rotr 22 x"

definition big_sigma1 :: "nat \<Rightarrow> nat" where
  "big_sigma1 x = rotr 6 x XOR rotr 11 x XOR rotr 25 x"

definition small_sigma0 :: "nat \<Rightarrow> nat" where
  "small_sigma0 x = rotr 7 x XOR rotr 18 x XOR shr 3 x"

definition small_sigma1 :: "nat \<Rightarrow> nat" where
  "small_sigma1 x = rotr 17 x XOR rotr 19 x XOR shr 10 x"

definition sha256_K :: "nat list" where
  "sha256_K =
    [0x428A2F98, 0x71374491, 0xB5C0FBCF, 0xE9B5DBA5, 0x3956C25B, 0x59F111F1,
     0x923F82A4, 0xAB1C5ED5, 0xD807AA98, 0x12835B01, 0x243185BE, 0x550C7DC3,
     0x72BE5D74, 0x80DEB1FE, 0x9BDC06A7, 0xC19BF174, 0xE49B69C1, 0xEFBE4786,
     0x0FC19DC6, 0x240CA1CC, 0x2DE92C6F, 0x4A7484AA, 0x5CB0A9DC, 0x76F988DA,
     0x983E5152, 0xA831C66D, 0xB00327C8, 0xBF597FC7, 0xC6E00BF3, 0xD5A79147,
     0x06CA6351, 0x14292967, 0x27B70A85, 0x2E1B2138, 0x4D2C6DFC, 0x53380D13,
     0x650A7354, 0x766A0ABB, 0x81C2C92E, 0x92722C85, 0xA2BFE8A1, 0xA81A664B,
     0xC24B8B70, 0xC76C51A3, 0xD192E819, 0xD6990624, 0xF40E3585, 0x106AA070,
     0x19A4C116, 0x1E376C08, 0x2748774C, 0x34B0BCB5, 0x391C0CB3, 0x4ED8AA4A,
     0x5B9CCA4F, 0x682E6FF3, 0x748F82EE, 0x78A5636F, 0x84C87814, 0x8CC70208,
     0x90BEFFFA, 0xA4506CEB, 0xBEF9A3F7, 0xC67178F2]"

definition sha256_H0 :: "nat list" where
  "sha256_H0 =
    [0x6A09E667, 0xBB67AE85, 0x3C6EF372, 0xA54FF53A, 0x510E527F, 0x9B05688C, 0x1F83D9AB, 0x5BE0CD19]"

definition from_bytes_big :: "nat list \<Rightarrow> nat" where
  "from_bytes_big bs = foldl (\<lambda>acc b. acc * 256 + b) 0 bs"

definition bytes_of_word :: "nat \<Rightarrow> nat list" where
  "bytes_of_word w = [w div 2 ^ 24 mod 256, w div 2 ^ 16 mod 256, w div 2 ^ 8 mod 256, w mod 256]"

definition length_field :: "nat \<Rightarrow> nat list" where
  "length_field n = map (\<lambda>i. n div 2 ^ (8 * i) mod 256) [7, 6, 5, 4, 3, 2, 1, 0]"

definition sha256_pad :: "nat list \<Rightarrow> nat list" where
  "sha256_pad m =
     m @ [0x80] @ replicate ((119 - length m mod 64) mod 64) 0 @ length_field (8 * length m)"

fun words_of_block :: "nat list \<Rightarrow> nat list" where
  "words_of_block (a # b # c # d # rest) = from_bytes_big [a, b, c, d] # words_of_block rest"
| "words_of_block _ = []"

definition next_word :: "nat list \<Rightarrow> nat" where
  "next_word w =
     add32 (add32 (add32 (small_sigma1 (w ! (length w - 2))) (w ! (length w - 7)))
                  (small_sigma0 (w ! (length w - 15)))) (w ! (length w - 16))"

fun extend_schedule :: "nat \<Rightarrow> nat list \<Rightarrow> nat list" where
  "extend_schedule 0 w = w"
| "extend_schedule (Suc n) w = extend_schedule n (w @ [next_word w])"

definition T1 :: "nat \<Rightarrow> nat \<Rightarrow> nat \<Rightarrow> nat \<Rightarrow> nat \<Rightarrow> nat \<Rightarrow> nat" where
  "T1 e f g h k w = add32 (add32 (add32 (add32 h (big_sigma1 e)) (ch e f g)) k) w"

definition T2 :: "nat \<Rightarrow> nat \<Rightarrow> nat \<Rightarrow> nat" where
  "T2 a b c = add32 (big_sigma0 a) (maj a b c)"

fun sha256_round :: "nat list \<Rightarrow> nat \<times> nat \<Rightarrow> nat list" where
  "sha256_round [a, b, c, d, e, f, g, h] (k, w) =
     [add32 (T1 e f g h k w) (T2 a b c), a, b, c, add32 d (T1 e f g h k w), e, f, g]"
| "sha256_round s _ = s"

definition sha256_compress :: "nat list \<Rightarrow> nat list \<Rightarrow> nat list" where
  "sha256_compress hs block =
     map2 add32 hs (foldl sha256_round hs (zip sha256_K (extend_schedule 48 (words_of_block block))))"

function sha256_blocks :: "nat list \<Rightarrow> nat list \<Rightarrow> nat list" where
  "sha256_blocks hs m =
     (if length m < 64 then hs
      else sha256_blocks (sha256_compress hs (take 64 m)) (drop 64 m))"
  by pat_completeness auto
termination
  by (relation "measure (\<lambda>(hs, m). length m)") auto

declare sha256_blocks.simps [simp del]

definition sha256 :: "nat list \<Rightarrow> nat list" where
  "sha256 m = concat (map bytes_of_word (sha256_blocks sha256_H0 (sha256_pad m)))"


subsection \<open>Python values, rendering and errors\<close>

text \<open>\<open>user_id\<close> is "any hashable value"; integers and strings are modelled.\<close>

datatype py_value = PyInt int | PyStr string

datatype error = ValueError | ZeroDivisionError | IndexError

text \<open>The object state: \<open>self.salt\<close>, set by \<open>__init__\<close> and never assigned again.\<close>

record ABSplitter =
  salt :: string

definition digit_char :: "nat \<Rightarrow> char" where
  "digit_char d = ''0123456789'' ! d"

function str_nat :: "nat \<Rightarrow> string" where
  "str_nat n = (if n < 10 then [digit_char n] else str_nat (n div 10) @ [digit_char (n mod 10)])"
  by pat_completeness auto
termination
  by (relation "measure id") auto

declare str_nat.simps [simp del]

text \<open>\<open>str(i)\<close> for a Python integer: decimal digits, with a leading minus sign.\<close>

definition str_int :: "int \<Rightarrow> string" where
  "str_int i = (if i < 0 then CHR ''-'' # str_nat (nat (- i)) else str_nat (nat i))"

text \<open>The replacement field \<open>{value}\<close> of the f-string: \<open>format(value, '')\<close>.\<close>

fun format_value :: "py_value \<Rightarrow> string" where
  "format_value (PyInt i) = str_int i"
| "format_value (PyStr s) = s"

subsection \<open>The uniform deriver: \<open>_hash_to_float\<close>\<close>

text \<open>\<open>combined = f"{self.salt}_{value}"\<close>\<close>

definition combined :: "string \<Rightarrow> string \<Rightarrow> string" where
  "combined s v = s @ ''_'' @ v"

text \<open>\<open>combined.encode()\<close>: the bytes of the string.\<close>

definition encode :: "string \<Rightarrow> nat list" where
  "encode s = map of_char s"

text \<open>\<open>int.bit_length()\<close>\<close>

function bit_length :: "nat \<Rightarrow> nat" where
  "bit_length n = (if n = 0 then 0 else Suc (bit_length (n div 2)))"
  by pat_completeness auto
termination
  by (relation "measure id") auto

declare bit_length.simps [simp del]

text \<open>\<open>n / 2 ^ s\<close> rounded to the nearest integer, a tie going to the even neighbour.\<close>

definition round_half_even :: "nat \<Rightarrow> nat \<Rightarrow> nat" where
  "round_half_even n s =
     (if 2 ^ s < 2 * (n mod 2 ^ s) \<or> (2 * (n mod 2 ^ s) = 2 ^ s \<and> odd (n div 2 ^ s))
      then n div 2 ^ s + 1 else n div 2 ^ s)"

text \<open>
  The binary64 value nearest to the integer \<open>n\<close> (for \<open>n < 2 ^ 1024\<close>): \<open>n\<close> keeps its
  53 leading bits, the rest is rounded half-to-even.
\<close>

definition nearest_binary64 :: "nat \<Rightarrow> nat" where
  "nearest_binary64 n = round_half_even n (bit_length n - 53) * 2 ^ (bit_length n - 53)"

text \<open>
  Python's true division \<open>n / 2**k\<close> of two integers returns the correctly rounded
  binary64 quotient. Scaling by a power of two is exact in the normal range, so the
  result is the rounded numerator over \<open>2 ^ k\<close>.
\<close>

definition int_truediv_pow2 :: "nat \<Rightarrow> nat \<Rightarrow> rat" where
  "int_truediv_pow2 n k = of_nat (nearest_binary64 n) / 2 ^ k"

text \<open>\<open>int.from_bytes(hash_bytes[:8], 'big')\<close> of the digest of the combined string.\<close>

definition hash_prefix :: "ABSplitter \<Rightarrow> py_value \<Rightarrow> nat" where
  "hash_prefix self v =
     from_bytes_big (take 8 (sha256 (encode (combined (salt self) (format_value v)))))"

definition hash_to_float :: "ABSplitter \<Rightarrow> py_value \<Rightarrow> rat" where
  "hash_to_float self v = int_truediv_pow2 (hash_prefix self v) 64"

subsection \<open>The bucket assigner: \<open>get_group\<close>\<close>

text \<open>The built-in \<open>sum\<close>: a left fold from 0.\<close>

definition py_sum :: "rat list \<Rightarrow> rat" where
  "py_sum ws = foldl (+) 0 ws"

text \<open>
  \<open>numpy.isclose(a, b)\<close> with its default tolerances \<open>rtol = 1e-05\<close> and
  \<open>atol = 1e-08\<close>: \<open>|a - b| <= atol + rtol * |b|\<close>.
\<close>

definition isclose :: "rat \<Rightarrow> rat \<Rightarrow> bool" where
  "isclose a b = (\<bar>a - b\<bar> \<le> 1 / 10 ^ 8 + 1 / 10 ^ 5 * \<bar>b\<bar>)"

text \<open>
  The loop \<open>for group, weight in zip(groups, weights)\<close> with its running
  \<open>cumulative\<close>; \<open>None\<close> when the loop ends without returning.
\<close>

fun scan_groups :: "rat \<Rightarrow> rat \<Rightarrow> (string \<times> rat) list \<Rightarrow> string option" where
  "scan_groups bucket cumulative [] = None"
| "scan_groups bucket cumulative ((grp, weight) # rest) =
     (if bucket < cumulative + weight then Some grp
      else scan_groups bucket (cumulative + weight) rest)"

text \<open>
  Lines 63 to 68: the scan from \<open>cumulative = 0.0\<close>, then \<open>return groups[-1]\<close>, which
  raises \<open>IndexError\<close> on an empty list.
\<close>

definition assign_bucket :: "rat \<Rightarrow> string list \<Rightarrow> rat list \<Rightarrow> error + string" where
  "assign_bucket bucket groups weights =
     (case scan_groups bucket 0 (zip groups weights) of
        Some grp \<Rightarrow> Inr grp
      | None \<Rightarrow> if groups = [] then Inl IndexError else Inr (last groups))"

text \<open>
  \<open>weights = [1/len(groups)] * len(groups)\<close> when \<open>weights is None\<close>; the division
  raises \<open>ZeroDivisionError\<close> for an empty \<open>groups\<close>.
\<close>

definition default_weights :: "string list \<Rightarrow> rat list option \<Rightarrow> error + rat list" where
  "default_weights groups weights =
     (case weights of
        Some ws \<Rightarrow> Inr ws
      | None \<Rightarrow>
          if length groups = 0 then Inl ZeroDivisionError
          else Inr (replicate (length groups) (1 / of_nat (length groups))))"

definition default_groups :: "string list option \<Rightarrow> string list" where
  "default_groups groups = (case groups of None \<Rightarrow> [''control'', ''test''] | Some gs \<Rightarrow> gs)"

definition get_group ::
  "ABSplitter \<Rightarrow> py_value \<Rightarrow> string list option \<Rightarrow> rat list option \<Rightarrow> error + string" where
  "get_group self user_id groups weights =
     (case default_weights (default_groups groups) weights of
        Inl e \<Rightarrow> Inl e
      | Inr ws \<Rightarrow>
          if \<not> isclose (py_sum ws) 1 then Inl ValueError
          else assign_bucket (hash_to_float self user_id) (default_groups groups) ws)"

text \<open>
  The cumulative boundaries of the specification: \<open>b 0 = 0\<close> and
  \<open>b i = w 1 + ... + w i\<close>, in group order.
\<close>

definition boundary :: "rat list \<Rightarrow> nat \<Rightarrow> rat" where
  "boundary ws i = sum_list (take i ws)"

section \<open>Evaluation of the model\<close>

lemma replicate_numeral: "replicate (numeral k) x = x # replicate (pred_numeral k) x"
  by (simp add: numeral_eq_Suc)

lemma extend_schedule_numeral:
  "extend_schedule (numeral k) w = extend_schedule (pred_numeral k) (w @ [next_word w])"
  by (simp add: numeral_eq_Suc)

lemma str_nat_digit: "n < 10 \<Longrightarrow> str_nat n = [digit_char n]"
  by (simp add: str_nat.simps [of n])

lemma str_nat_step: "10 \<le> n \<Longrightarrow> str_nat n = str_nat (n div 10) @ [digit_char (n mod 10)]"
  by (simp add: str_nat.simps [of n])

lemma str_int_12345: "str_int 12345 = ''12345''"
  by (simp add: str_int_def str_nat_digit str_nat_step digit_char_def)

subsection \<open>SHA-256 on one block\<close>

text \<open>
  The padded message of an input below 56 bytes is one block. The hash is run on the
  FIPS 180-4 test vector \<open>abc\<close> and on the input of the file's own demo,
  \<open>ABSplitter(salt="demo_test").get_group(12345)\<close>, whose hash input is
  \<open>demo_test_12345\<close>.
\<close>

lemma sha256_single_block:
  assumes "length (sha256_pad m) = 64"
  shows "sha256 m = concat (map bytes_of_word (sha256_compress sha256_H0 (sha256_pad m)))"
proof -
  have "sha256_blocks sha256_H0 (sha256_pad m) =
      sha256_blocks (sha256_compress sha256_H0 (sha256_pad m)) []"
    using assms by (simp add: sha256_blocks.simps [of sha256_H0 "sha256_pad m"])
  also have "\<dots> = sha256_compress sha256_H0 (sha256_pad m)"
    by (simp add: sha256_blocks.simps [of _ "[]"])
  finally show ?thesis by (simp add: sha256_def)
qed

lemmas sha256_eval =
  sha256_single_block sha256_pad_def length_field_def from_bytes_big_def replicate_numeral
  sha256_compress_def extend_schedule_numeral next_word_def small_sigma0_def small_sigma1_def
  sha256_H0_def sha256_K_def T1_def T2_def big_sigma0_def big_sigma1_def rotr_def shr_def
  ch_def maj_def not32_def add32_def bytes_of_word_def

lemma sha256_abc:
  "sha256 [97, 98, 99] =
     [186, 120, 22, 191, 143, 1, 207, 234, 65, 65, 64, 222, 93, 174, 34, 35, 176, 3, 97, 163,
      150, 23, 122, 156, 180, 16, 255, 97, 242, 0, 21, 173]"
  by (simp add: sha256_eval)

lemma demo_digest:
  "sha256 (encode (combined ''demo_test'' ''12345'')) =
     [152, 179, 214, 152, 123, 121, 245, 190, 8, 126, 145, 196, 75, 90, 5, 135, 170, 94, 39,
      173, 76, 246, 243, 56, 169, 231, 72, 136, 57, 234, 0, 226]"
  by (simp add: encode_def combined_def sha256_eval)

lemma demo_prefix: "hash_prefix \<lparr>salt = ''demo_test''\<rparr> (PyInt 12345) = 11003374264991217086"
  by (simp add: hash_prefix_def str_int_12345 demo_digest from_bytes_big_def)

section \<open>The rounding of \<open>n / 2**64\<close>\<close>

lemma bit_length_0: "bit_length 0 = 0"
  by (simp add: bit_length.simps [of 0])

lemma bit_length_pos: "n \<noteq> 0 \<Longrightarrow> bit_length n = Suc (bit_length (n div 2))"
  by (simp add: bit_length.simps [of n])

lemma bit_length_upper: "n < 2 ^ k \<Longrightarrow> bit_length n \<le> k"
proof (induction n arbitrary: k rule: bit_length.induct)
  case (1 n)
  show ?case
  proof (cases "n = 0")
    case True
    then show ?thesis by (simp add: bit_length_0)
  next
    case False
    with "1.prems" obtain k' where k: "k = Suc k'" by (cases k) auto
    with "1.prems" have "n div 2 < 2 ^ k'" by auto
    from "1.IH" [OF False this] show ?thesis
      using False k by (simp add: bit_length_pos)
  qed
qed

lemma bit_length_less: "n < 2 ^ bit_length n"
proof (induction n rule: bit_length.induct)
  case (1 n)
  show ?case
  proof (cases "n = 0")
    case True
    then show ?thesis by simp
  next
    case False
    with "1.IH" have "n div 2 < 2 ^ bit_length (n div 2)" by simp
    then show ?thesis
      using False by (simp add: bit_length_pos)
  qed
qed

lemma bit_length_eq: "2 ^ k \<le> n \<Longrightarrow> n < 2 ^ Suc k \<Longrightarrow> bit_length n = Suc k"
proof -
  assume lo: "2 ^ k \<le> n" and hi: "n < 2 ^ Suc k"
  have "bit_length n \<le> Suc k" using hi by (rule bit_length_upper)
  moreover have "(2::nat) ^ k < 2 ^ bit_length n"
    using lo bit_length_less [of n] by (rule le_less_trans)
  then have "k < bit_length n" by simp
  ultimately show ?thesis by simp
qed

lemma round_half_even_exact: "round_half_even n 0 = n"
  by (simp add: round_half_even_def)

lemma round_half_even_error:
  "2 * \<bar>int (round_half_even n s * 2 ^ s) - int n\<bar> \<le> 2 ^ s"
proof -
  define q r where "q = n div 2 ^ s" and "r = n mod 2 ^ s"
  have n: "n = q * 2 ^ s + r" and r: "r < 2 ^ s"
    unfolding q_def r_def by (rule div_mult_mod_eq [symmetric]) simp
  show ?thesis
  proof (cases "2 ^ s < 2 * r \<or> (2 * r = 2 ^ s \<and> odd q)")
    case True
    then have "round_half_even n s = q + 1"
      by (simp add: round_half_even_def q_def r_def)
    then have e: "int (round_half_even n s * 2 ^ s) - int n = 2 ^ s - int r"
      by (simp add: n algebra_simps)
    from True have "2 ^ s \<le> 2 * r" by auto
    then have "int (2 ^ s) \<le> int (2 * r)" by (simp only: of_nat_le_iff)
    then have "(2::int) ^ s \<le> 2 * int r" by simp
    moreover from r have "int r < int (2 ^ s)" by (simp only: of_nat_less_iff)
    then have "int r < 2 ^ s" by simp
    ultimately show ?thesis unfolding e by (simp add: abs_if)
  next
    case False
    then have "round_half_even n s = q"
      by (simp add: round_half_even_def q_def r_def)
    then have e: "int (round_half_even n s * 2 ^ s) - int n = - int r"
      by (simp add: n)
    from False have "2 * r \<le> 2 ^ s" by auto
    then have "int (2 * r) \<le> int (2 ^ s)" by (simp only: of_nat_le_iff)
    then have "2 * int r \<le> 2 ^ s" by simp
    then show ?thesis unfolding e by simp
  qed
qed

lemma round_half_even_upper: "n < m * 2 ^ s \<Longrightarrow> round_half_even n s \<le> m"
proof -
  assume "n < m * 2 ^ s"
  then have "n div 2 ^ s < m"
    by (simp add: less_mult_imp_div_less)
  then show ?thesis by (simp add: round_half_even_def)
qed

lemma nearest_binary64_small: "n < 2 ^ 53 \<Longrightarrow> nearest_binary64 n = n"
proof -
  assume "n < 2 ^ 53"
  then have "bit_length n \<le> 53" by (rule bit_length_upper)
  then show ?thesis by (simp add: nearest_binary64_def round_half_even_exact)
qed

lemma nearest_binary64_upper: "n < 2 ^ k \<Longrightarrow> nearest_binary64 n \<le> 2 ^ k"
proof -
  assume nk: "n < 2 ^ k"
  define b where "b = bit_length n"
  have bk: "b \<le> k" unfolding b_def using nk by (rule bit_length_upper)
  have nb: "n < 2 ^ b" unfolding b_def by (rule bit_length_less)
  show ?thesis
  proof (cases "b \<le> 53")
    case True
    then have "nearest_binary64 n = n"
      by (simp add: nearest_binary64_def b_def round_half_even_exact)
    with nk show ?thesis by simp
  next
    case False
    then have "b = 53 + (b - 53)" by simp
    then have eq: "(2::nat) ^ b = 2 ^ 53 * 2 ^ (b - 53)"
      by (metis power_add)
    have "n < 2 ^ 53 * 2 ^ (b - 53)"
      using nb unfolding eq .
    then have "round_half_even n (b - 53) \<le> 2 ^ 53"
      by (rule round_half_even_upper)
    then have "round_half_even n (b - 53) * 2 ^ (b - 53) \<le> 2 ^ 53 * 2 ^ (b - 53)"
      by (rule mult_le_mono1)
    then have "nearest_binary64 n \<le> 2 ^ 53 * 2 ^ (b - 53)"
      by (simp only: nearest_binary64_def b_def)
    then have "nearest_binary64 n \<le> 2 ^ b"
      by (simp only: eq)
    moreover have "(2::nat) ^ b \<le> 2 ^ k" using bk by simp
    ultimately show ?thesis by (rule order_trans)
  qed
qed

lemma nearest_binary64_below_one:
  assumes "n < 2 ^ 64 - 2 ^ 10"
  shows "nearest_binary64 n < 2 ^ 64"
proof (cases "bit_length n \<le> 63")
  case True
  have "n < 2 ^ bit_length n" by (rule bit_length_less)
  also have "(2::nat) ^ bit_length n \<le> 2 ^ 63" using True by (rule power_increasing) simp
  finally have "nearest_binary64 n \<le> 2 ^ 63" by (rule nearest_binary64_upper)
  then show ?thesis by simp
next
  case False
  from assms have "n < 2 ^ 64" by simp
  then have "bit_length n \<le> 64" by (rule bit_length_upper)
  with False have b: "bit_length n - 53 = 11" by simp
  define q r where "q = n div 2048" and "r = n mod 2048"
  have n: "n = q * 2048 + r" and r: "r < 2048"
    by (simp_all add: q_def r_def)
  have "round_half_even n 11 < 9007199254740992"
  proof (cases "2048 < 2 * r \<or> (2 * r = 2048 \<and> odd q)")
    case True
    then have "round_half_even n 11 = q + 1"
      by (simp add: round_half_even_def q_def r_def)
    moreover from True have "1024 \<le> r" by auto
    with assms n have "q + 1 < 9007199254740992" by simp
    ultimately show ?thesis by simp
  next
    case False
    then have "round_half_even n 11 = q"
      by (simp add: round_half_even_def q_def r_def)
    moreover from assms n have "q < 9007199254740992" by simp
    ultimately show ?thesis by simp
  qed
  then show ?thesis by (simp add: nearest_binary64_def b)
qed

lemma nearest_binary64_error:
  assumes "n < 2 ^ 64"
  shows "\<bar>int (nearest_binary64 n) - int n\<bar> \<le> 2 ^ 10"
proof -
  define s where "s = bit_length n - 53"
  from assms have "bit_length n \<le> 64" by (rule bit_length_upper)
  then have s: "s \<le> 11" by (simp add: s_def)
  have "2 * \<bar>int (nearest_binary64 n) - int n\<bar> \<le> 2 ^ s"
    unfolding nearest_binary64_def s_def by (rule round_half_even_error)
  also have "(2::int) ^ s \<le> 2 ^ 11" using s by (rule power_increasing) simp
  finally show ?thesis by simp
qed

lemma from_bytes_big_foldl:
  "\<forall>b\<in>set bs. b < 256 \<Longrightarrow>
     foldl (\<lambda>acc b. acc * 256 + b) a bs < (a + 1) * 256 ^ length (bs :: nat list)"
proof (induction bs arbitrary: a)
  case Nil
  then show ?case by simp
next
  case (Cons b bs)
  then have "b < 256" and rest: "\<forall>b\<in>set bs. b < 256" by simp_all
  have "foldl (\<lambda>acc b. acc * 256 + b) (a * 256 + b) bs < (a * 256 + b + 1) * 256 ^ length bs"
    by (rule Cons.IH [OF rest])
  also have "\<dots> \<le> ((a + 1) * 256) * 256 ^ length bs"
    using \<open>b < 256\<close> by (intro mult_le_mono1) simp
  finally show ?case by (simp add: algebra_simps)
qed

lemma from_bytes_big_bound:
  "\<forall>b\<in>set bs. b < 256 \<Longrightarrow> from_bytes_big bs < 256 ^ length bs"
  using from_bytes_big_foldl [of bs 0] by (simp add: from_bytes_big_def)

lemma sha256_bytes: "\<forall>b\<in>set (sha256 m). b < 256"
  by (auto simp: sha256_def bytes_of_word_def)

lemma hash_prefix_bound: "hash_prefix self v < 2 ^ 64"
proof -
  define bs where "bs = take 8 (sha256 (encode (combined (salt self) (format_value v))))"
  have "\<forall>b\<in>set bs. b < 256"
    unfolding bs_def using sha256_bytes by (meson in_set_takeD)
  then have "from_bytes_big bs < 256 ^ length bs" by (rule from_bytes_big_bound)
  also have "(256::nat) ^ length bs \<le> 256 ^ 8"
    by (rule power_increasing) (simp_all add: bs_def)
  finally show ?thesis by (simp add: hash_prefix_def bs_def)
qed

lemma hash_to_float_range: "0 \<le> hash_to_float self v \<and> hash_to_float self v \<le> 1"
proof -
  have "nearest_binary64 (hash_prefix self v) \<le> 2 ^ 64"
    using hash_prefix_bound by (rule nearest_binary64_upper)
  then have "(of_nat (nearest_binary64 (hash_prefix self v)) :: rat) \<le> of_nat (2 ^ 64)"
    by (simp only: of_nat_le_iff)
  then show ?thesis by (simp add: hash_to_float_def int_truediv_pow2_def)
qed

lemma demo_bucket:
  "hash_to_float \<lparr>salt = ''demo_test''\<rparr> (PyInt 12345) = 11003374264991217664 / 2 ^ 64"
proof -
  have "bit_length 11003374264991217086 = Suc 63"
    by (rule bit_length_eq) simp_all
  then show ?thesis
    by (simp add: hash_to_float_def demo_prefix int_truediv_pow2_def nearest_binary64_def
        round_half_even_def)
qed

text \<open>
  At the upper end of the range the rounding reaches 1: the quotients
  \<open>(2**64 - 1) / 2**64\<close> and \<open>(2**64 - 2**10) / 2**64\<close> are the float \<open>1.0\<close>.
\<close>

lemma int_truediv_rounds_up_to_one:
  "int_truediv_pow2 (2 ^ 64 - 1) 64 = 1 \<and> int_truediv_pow2 (2 ^ 64 - 2 ^ 10) 64 = 1"
proof -
  have "bit_length (2 ^ 64 - 1) = Suc 63" and "bit_length (2 ^ 64 - 2 ^ 10) = Suc 63"
    by (rule bit_length_eq; simp)+
  then show ?thesis
    by (simp add: int_truediv_pow2_def nearest_binary64_def round_half_even_def)
qed

section \<open>The uniform deriver\<close>

text \<open>
  Claim C1, as amended. The deriver returns the binary64 value nearest to
  \<open>n / 2 ^ 64\<close> (ties to even), where \<open>n < 2 ^ 64\<close> is the big-endian integer of the first
  8 bytes of the SHA-256 digest of \<open>salt + "_" + str(value)\<close>. The result differs from
  \<open>n / 2 ^ 64\<close> by at most \<open>2 ^ -54\<close>, is not negative, and is below 1 whenever
  \<open>n < 2 ^ 64 - 2 ^ 10\<close>.
\<close>

theorem hash_to_float_nearest:
  "hash_prefix self v < 2 ^ 64 \<and>
   hash_to_float self v = of_nat (nearest_binary64 (hash_prefix self v)) / 2 ^ 64 \<and>
   \<bar>hash_to_float self v - of_nat (hash_prefix self v) / 2 ^ 64\<bar> \<le> 1 / 2 ^ 54 \<and>
   0 \<le> hash_to_float self v \<and>
   (hash_prefix self v < 2 ^ 64 - 2 ^ 10 \<longrightarrow> hash_to_float self v < 1)"
proof -
  define n where "n = hash_prefix self v"
  have n: "n < 2 ^ 64" unfolding n_def by (rule hash_prefix_bound)
  have eq: "hash_to_float self v = of_nat (nearest_binary64 n) / 2 ^ 64"
    by (simp add: hash_to_float_def int_truediv_pow2_def n_def)
  have "\<bar>int (nearest_binary64 n) - int n\<bar> \<le> 2 ^ 10"
    using n by (rule nearest_binary64_error)
  then have "(of_int \<bar>int (nearest_binary64 n) - int n\<bar> :: rat) \<le> of_int (2 ^ 10)"
    by (simp only: of_int_le_iff)
  then have "\<bar>(of_nat (nearest_binary64 n) :: rat) - of_nat n\<bar> \<le> 2 ^ 10"
    by simp
  then have "\<bar>(of_nat (nearest_binary64 n) :: rat) - of_nat n\<bar> / 2 ^ 64 \<le> 2 ^ 10 / 2 ^ 64"
    by (rule divide_right_mono) simp
  then have err: "\<bar>hash_to_float self v - of_nat n / 2 ^ 64\<bar> \<le> 1 / 2 ^ 54"
    by (simp add: eq flip: diff_divide_distrib)
  have below: "hash_to_float self v < 1" if "n < 2 ^ 64 - 2 ^ 10"
  proof -
    from that have "nearest_binary64 n < 2 ^ 64" by (rule nearest_binary64_below_one)
    then have "(of_nat (nearest_binary64 n) :: rat) < of_nat (2 ^ 64)"
      by (simp only: of_nat_less_iff)
    then show ?thesis by (simp add: eq)
  qed
  show ?thesis
    using n eq err below hash_to_float_range [of self v] unfolding n_def by blast
qed

theorem hash_to_float_nearest_witness:
  "hash_prefix \<lparr>salt = ''demo_test''\<rparr> (PyInt 12345) < 2 ^ 64 - 2 ^ 10 \<and>
   hash_to_float \<lparr>salt = ''demo_test''\<rparr> (PyInt 12345) < 1"
  using hash_to_float_nearest [of "\<lparr>salt = ''demo_test''\<rparr>" "PyInt 12345"]
  by (simp add: demo_prefix)

text \<open>
  Claim C1 as stated fails on exactness. For the salt \<open>demo_test\<close> and the identifier
  \<open>12345\<close> of the file's own demo, the digest prefix is 11003374264991217086, which
  needs 64 bits; the float returned is 11003374264991217664 / 2 ^ 64.
\<close>

theorem hash_to_float_inexact:
  "hash_prefix \<lparr>salt = ''demo_test''\<rparr> (PyInt 12345) = 11003374264991217086 \<and>
   hash_to_float \<lparr>salt = ''demo_test''\<rparr> (PyInt 12345) = 11003374264991217664 / 2 ^ 64 \<and>
   hash_to_float \<lparr>salt = ''demo_test''\<rparr> (PyInt 12345) \<noteq>
     of_nat (hash_prefix \<lparr>salt = ''demo_test''\<rparr> (PyInt 12345)) / 2 ^ 64"
  by (simp add: demo_prefix demo_bucket)

lemma split_at_first:
  "x \<notin> set xs \<Longrightarrow> x \<notin> set xs' \<Longrightarrow> xs @ x # ys = xs' @ x # ys' \<longleftrightarrow> xs = xs' \<and> ys = ys'"
proof (induction xs arbitrary: xs')
  case Nil
  then show ?case by (cases xs') auto
next
  case (Cons a xs)
  then show ?case by (cases xs') auto
qed

lemma combined_eq_iff_salt:
  "CHR ''_'' \<notin> set s1 \<Longrightarrow> CHR ''_'' \<notin> set s2 \<Longrightarrow>
     combined s1 v1 = combined s2 v2 \<longleftrightarrow> s1 = s2 \<and> v1 = v2"
  by (simp add: combined_def split_at_first)

lemma combined_eq_iff_value:
  assumes "CHR ''_'' \<notin> set v1" and "CHR ''_'' \<notin> set v2"
  shows "combined s1 v1 = combined s2 v2 \<longleftrightarrow> s1 = s2 \<and> v1 = v2"
proof -
  have "combined s1 v1 = combined s2 v2 \<longleftrightarrow> rev (combined s1 v1) = rev (combined s2 v2)"
    by simp
  also have "\<dots> \<longleftrightarrow> rev v1 @ CHR ''_'' # rev s1 = rev v2 @ CHR ''_'' # rev s2"
    by (simp add: combined_def)
  also have "\<dots> \<longleftrightarrow> rev v1 = rev v2 \<and> rev s1 = rev s2"
    using assms by (intro split_at_first) simp_all
  finally show ?thesis by auto
qed

lemma combined_eq_iff_length:
  "length s1 = length s2 \<Longrightarrow> combined s1 v1 = combined s2 v2 \<longleftrightarrow> s1 = s2 \<and> v1 = v2"
  by (simp add: combined_def)

text \<open>
  Claim C7, as amended. The separator is the byte \<open>_\<close> and nothing escapes it, so the
  concatenation alone does not separate every two pairs. It does when neither salt
  contains \<open>_\<close>, when neither identifier rendering contains \<open>_\<close>, or when the two salts
  have the same length (in particular for one salt): then two distinct (salt, identifier)
  pairs give distinct hash inputs.
\<close>

theorem combined_injective:
  assumes "(CHR ''_'' \<notin> set s1 \<and> CHR ''_'' \<notin> set s2) \<or>
           (CHR ''_'' \<notin> set v1 \<and> CHR ''_'' \<notin> set v2) \<or> length s1 = length s2"
      and "(s1, v1) \<noteq> (s2, v2)"
  shows "combined s1 v1 \<noteq> combined s2 v2"
  using assms combined_eq_iff_salt [of s1 s2 v1 v2] combined_eq_iff_value [of v1 v2 s1 s2]
    combined_eq_iff_length [of s1 s2 v1 v2]
  by blast

theorem combined_injective_witness:
  "((CHR ''_'' \<notin> set ''exp1'' \<and> CHR ''_'' \<notin> set ''exp2'') \<or>
    (CHR ''_'' \<notin> set ''7'' \<and> CHR ''_'' \<notin> set ''7'') \<or> length ''exp1'' = length ''exp2'') \<and>
   (''exp1'', ''7'') \<noteq> (''exp2'', ''7'') \<and>
   combined ''exp1'' ''7'' \<noteq> combined ''exp2'' ''7''"
  using combined_injective [of "''exp1''" "''exp2''" "''7''" "''7''"] by simp

lemma str_nat_digits: "set (str_nat n) \<subseteq> set ''0123456789''"
proof (induction n rule: str_nat.induct)
  case (1 n)
  have d: "digit_char k \<in> set ''0123456789''" if "k < 10" for k
    unfolding digit_char_def using that by (intro nth_mem) simp
  show ?case
  proof (cases "n < 10")
    case True
    then show ?thesis using d [of n] by (simp add: str_nat_digit)
  next
    case False
    then have "set (str_nat (n div 10)) \<subseteq> set ''0123456789''" by (rule "1.IH")
    moreover have "digit_char (n mod 10) \<in> set ''0123456789''" by (rule d) simp
    ultimately show ?thesis using False by (simp add: str_nat_step)
  qed
qed

lemma format_int_no_separator: "CHR ''_'' \<notin> set (format_value (PyInt i))"
  using str_nat_digits [of "nat i"] str_nat_digits [of "nat (- i)"]
  by (auto simp: str_int_def)

text \<open>
  The rendering of an integer has digits and a sign only, so for integer identifiers
  the hash input determines the salt and the rendered identifier.
\<close>

lemma combined_int_identifiers:
  "combined s1 (format_value (PyInt i)) = combined s2 (format_value (PyInt j)) \<longleftrightarrow>
     s1 = s2 \<and> str_int i = str_int j"
  using combined_eq_iff_value [OF format_int_no_separator format_int_no_separator] by simp

text \<open>
  Claim C7 as stated fails: the pairs (\<open>a_b\<close>, \<open>c\<close>) and (\<open>a\<close>, \<open>b_c\<close>) differ and both
  give the hash input \<open>a_b_c\<close>.
\<close>

theorem combined_ambiguous:
  "(''a_b'', ''c'') \<noteq> (''a'', ''b_c'') \<and> combined ''a_b'' ''c'' = combined ''a'' ''b_c''"
  by (simp add: combined_def)

section \<open>The scan over the cumulative weights\<close>

lemma foldl_add_sum: "foldl (+) a ws = a + sum_list (ws :: rat list)"
  by (induction ws arbitrary: a) (simp_all add: add.assoc)

lemma py_sum_sum_list: "py_sum ws = sum_list ws"
  by (simp add: py_sum_def foldl_add_sum)

lemma py_sum_replicate: "py_sum (replicate n c) = of_nat n * c"
  by (simp add: py_sum_sum_list sum_list_replicate)

lemma scan_groups_None:
  "scan_groups b c xs = None \<longleftrightarrow>
     (\<forall>j<length xs. \<not> b < c + sum_list (take (Suc j) (map snd xs)))"
proof (induction xs arbitrary: c)
  case Nil
  then show ?case by simp
next
  case (Cons x xs)
  obtain g w where x: "x = (g, w)" by (cases x)
  show ?case
    by (simp add: x Cons.IH All_less_Suc2 add.assoc)
qed

lemma scan_groups_Some:
  "scan_groups b c xs = Some g \<Longrightarrow>
     \<exists>i<length xs. g = fst (xs ! i) \<and> b < c + sum_list (take (Suc i) (map snd xs)) \<and>
        (\<forall>j<i. \<not> b < c + sum_list (take (Suc j) (map snd xs)))"
proof (induction xs arbitrary: c)
  case Nil
  then show ?case by simp
next
  case (Cons x xs)
  obtain g' w where x: "x = (g', w)" by (cases x)
  show ?case
  proof (cases "b < c + w")
    case True
    with Cons.prems x show ?thesis by (intro exI [of _ 0]) simp
  next
    case False
    with Cons.prems x have "scan_groups b (c + w) xs = Some g" by simp
    from Cons.IH [OF this] obtain i where i: "i < length xs" "g = fst (xs ! i)"
      "b < c + w + sum_list (take (Suc i) (map snd xs))"
      "\<forall>j<i. \<not> b < c + w + sum_list (take (Suc j) (map snd xs))" by blast
    show ?thesis
      using i False x by (intro exI [of _ "Suc i"]) (simp add: All_less_Suc2 add.assoc)
  qed
qed

lemma scan_groups_mem: "scan_groups b c xs = Some g \<Longrightarrow> g \<in> fst ` set xs"
proof -
  assume "scan_groups b c xs = Some g"
  from scan_groups_Some [OF this] obtain i where "i < length xs" "g = fst (xs ! i)" by blast
  then show ?thesis by (metis image_eqI nth_mem)
qed

lemma assign_bucket_index:
  assumes len: "length groups = length weights"
      and sum: "py_sum weights = 1"
      and lo: "0 \<le> sample" and hi: "sample < 1"
  shows "\<exists>i<length groups.
           assign_bucket sample groups weights = Inr (groups ! i) \<and>
           boundary weights i \<le> sample \<and> sample < boundary weights (Suc i) \<and>
           (\<forall>j<i. \<not> sample < boundary weights (Suc j))"
proof -
  define xs where "xs = zip groups weights"
  have snd_xs: "map snd xs = weights" and len_xs: "length xs = length groups"
    using len by (simp_all add: xs_def)
  have total: "sum_list weights = 1"
    using sum by (simp add: py_sum_sum_list)
  then have "weights \<noteq> []" by auto
  then have pos: "0 < length xs" using len len_xs by simp
  have "scan_groups sample 0 xs \<noteq> None"
  proof
    assume "scan_groups sample 0 xs = None"
    then have "\<forall>j<length xs. \<not> sample < 0 + sum_list (take (Suc j) (map snd xs))"
      by (simp only: scan_groups_None)
    from this [rule_format, of "length xs - 1"] pos
    have "\<not> sample < sum_list (map snd xs)" by simp
    then show False using hi total by (simp add: snd_xs)
  qed
  then obtain g where g: "scan_groups sample 0 xs = Some g" by auto
  from scan_groups_Some [OF this] obtain i where i: "i < length xs" "g = fst (xs ! i)"
    "sample < boundary weights (Suc i)" "\<forall>j<i. \<not> sample < boundary weights (Suc j)"
    by (auto simp: snd_xs boundary_def)
  have "g = groups ! i" using i(1,2) len by (simp add: xs_def)
  moreover have "boundary weights i \<le> sample"
  proof (cases i)
    case 0
    then show ?thesis using lo by (simp add: boundary_def)
  next
    case (Suc k)
    with i(4) show ?thesis by auto
  qed
  ultimately show ?thesis
    using g i len_xs by (auto simp: assign_bucket_def xs_def)
qed

lemma assign_bucket_mem:
  assumes "groups \<noteq> []"
  shows "\<exists>g\<in>set groups. assign_bucket sample groups weights = Inr g"
proof (cases "scan_groups sample 0 (zip groups weights)")
  case None
  with assms show ?thesis by (simp add: assign_bucket_def)
next
  case (Some g)
  then have "g \<in> fst ` set (zip groups weights)" by (rule scan_groups_mem)
  then have "g \<in> set groups" by (auto dest: set_zip_leftD)
  with Some show ?thesis by (simp add: assign_bucket_def)
qed

lemma assign_bucket_fallback:
  assumes "groups \<noteq> []"
      and "\<forall>j<min (length groups) (length weights). boundary weights (Suc j) \<le> sample"
  shows "assign_bucket sample groups weights = Inr (last groups)"
proof -
  define xs where "xs = zip groups weights"
  have take_eq: "take (Suc j) (map snd xs) = take (Suc j) weights" if "j < length xs" for j
    using that by (simp add: xs_def map_snd_zip_take min_def)
  have "\<forall>j<length xs. \<not> sample < 0 + sum_list (take (Suc j) (map snd xs))"
  proof (intro allI impI)
    fix j
    assume j: "j < length xs"
    then have "j < min (length groups) (length weights)" by (simp add: xs_def)
    with assms(2) have "boundary weights (Suc j) \<le> sample" by blast
    then show "\<not> sample < 0 + sum_list (take (Suc j) (map snd xs))"
      by (simp add: take_eq [OF j] boundary_def not_less)
  qed
  then have "scan_groups sample 0 xs = None"
    by (simp only: scan_groups_None)
  with assms(1) show ?thesis by (simp add: assign_bucket_def xs_def)
qed



lemma get_group_explicit:
  "get_group self u groups (Some ws) =
     (if \<not> isclose (py_sum ws) 1 then Inl ValueError
      else assign_bucket (hash_to_float self u) (default_groups groups) ws)"
  by (simp add: get_group_def default_weights_def)


lemma get_group_returns_member:
  "gs \<noteq> [] \<Longrightarrow> isclose (py_sum ws) 1 \<Longrightarrow>
     \<exists>g\<in>set gs. get_group self u (Some gs) (Some ws) = Inr g"
  by (simp add: get_group_explicit default_groups_def assign_bucket_mem)

lemma get_group_default_weights:
  assumes "gs \<noteq> []"
  shows "\<exists>g\<in>set gs. get_group self u (Some gs) None = Inr g"
proof -
  have "isclose (py_sum (replicate (length gs) (1 / of_nat (length gs)))) 1"
    using assms by (simp add: py_sum_replicate isclose_def)
  then show ?thesis
    using assms by (simp add: get_group_def default_weights_def default_groups_def assign_bucket_mem)
qed

lemma get_group_defaults:
  "\<exists>g\<in>set [''control'', ''test'']. get_group self u None None = Inr g"
proof -
  have "get_group self u None None = get_group self u (Some [''control'', ''test'']) None"
    by (simp add: get_group_def default_groups_def split: sum.split)
  then show ?thesis
    using get_group_default_weights [of "[''control'', ''test'']" self u] by simp
qed

lemma demo_group: "get_group \<lparr>salt = ''demo_test''\<rparr> (PyInt 12345) None None = Inr ''test''"
  by (simp add: get_group_def default_groups_def default_weights_def isclose_def py_sum_def
      assign_bucket_def demo_bucket)

section \<open>The bucket assigner\<close>



text \<open>
  Claim C3. For a non-empty list of groups the assignment never fails: for every sample
  the bucket assigner returns a name from \<open>groups\<close>; when the sample is at or above every
  computed cumulative boundary it returns the last group; and once the weights have
  passed the sum check, \<open>get_group\<close> returns a name from \<open>groups\<close> for every salt and
  identifier. The default weights \<open>[1/len(groups)] * len(groups)\<close> always pass it, and
  so do the default groups with them.
\<close>

theorem assignment_total:
  assumes "groups \<noteq> []"
  shows "(\<exists>g\<in>set groups. assign_bucket sample groups weights = Inr g) \<and>
         ((\<forall>j<min (length groups) (length weights). boundary weights (Suc j) \<le> sample) \<longrightarrow>
            assign_bucket sample groups weights = Inr (last groups)) \<and>
         (isclose (py_sum weights) 1 \<longrightarrow>
            (\<exists>g\<in>set groups. get_group self user_id (Some groups) (Some weights) = Inr g)) \<and>
         (\<exists>g\<in>set groups. get_group self user_id (Some groups) None = Inr g) \<and>
         (\<exists>g\<in>set [''control'', ''test'']. get_group self user_id None None = Inr g)"
proof (intro conjI impI)
  show "\<exists>g\<in>set groups. assign_bucket sample groups weights = Inr g"
    using assms by (rule assign_bucket_mem)
  show "assign_bucket sample groups weights = Inr (last groups)"
    if "\<forall>j<min (length groups) (length weights). boundary weights (Suc j) \<le> sample"
    using assms that by (rule assign_bucket_fallback)
  show "\<exists>g\<in>set groups. get_group self user_id (Some groups) (Some weights) = Inr g"
    if "isclose (py_sum weights) 1"
    using assms that by (rule get_group_returns_member)
  show "\<exists>g\<in>set groups. get_group self user_id (Some groups) None = Inr g"
    using assms by (rule get_group_default_weights)
  show "\<exists>g\<in>set [''control'', ''test'']. get_group self user_id None None = Inr g"
    by (rule get_group_defaults)
qed

theorem assignment_total_witness:
  "[''control'', ''test''] \<noteq> [] \<and>
   boundary [1 / 2, 499999 / 1000000] 1 \<le> 9999995 / 10000000 \<and>
   boundary [1 / 2, 499999 / 1000000] 2 \<le> 9999995 / 10000000 \<and>
   isclose (py_sum [1 / 2, 499999 / 1000000]) 1 \<and>
   assign_bucket (9999995 / 10000000) [''control'', ''test''] [1 / 2, 499999 / 1000000] =
     Inr ''test'' \<and>
   (\<exists>g\<in>set [''control'', ''test''].
      get_group \<lparr>salt = ''demo_test''\<rparr> (PyInt 12345) (Some [''control'', ''test''])
        (Some [1 / 2, 499999 / 1000000]) = Inr g)"
proof -
  have h2: "\<forall>j<min (length [''control'', ''test'']) (length [1 / 2, 499999 / 1000000 :: rat]).
      boundary [1 / 2, 499999 / 1000000] (Suc j) \<le> 9999995 / 10000000"
    by (simp add: boundary_def numeral_2_eq_2 All_less_Suc)
  have h3: "isclose (py_sum [1 / 2, 499999 / 1000000]) 1"
    by (simp add: isclose_def py_sum_def)
  show ?thesis
    using assignment_total [of "[''control'', ''test'']" "9999995 / 10000000"
        "[1 / 2, 499999 / 1000000]" "\<lparr>salt = ''demo_test''\<rparr>" "PyInt 12345"] h2 h3
    by (simp add: boundary_def)
qed

text \<open>
  Claim C10. Under exact arithmetic, for groups and weights of equal length whose
  weights sum to exactly 1 and a sample in \<open>[0, 1)\<close>, the returned name is that of a
  group with strictly positive weight.
\<close>

theorem positive_weight_returned:
  assumes "length groups = length weights"
      and "\<forall>w\<in>set weights. 0 \<le> w"
      and "py_sum weights = 1"
      and "0 \<le> sample" and "sample < 1"
  shows "\<exists>i<length groups.
           assign_bucket sample groups weights = Inr (groups ! i) \<and> 0 < weights ! i"
proof -
  from assign_bucket_index [OF assms(1) assms(3) assms(4) assms(5)]
  obtain i where i: "i < length groups"
    "assign_bucket sample groups weights = Inr (groups ! i)"
    "boundary weights i \<le> sample" "sample < boundary weights (Suc i)" by blast
  have "boundary weights (Suc i) = boundary weights i + weights ! i"
    using i(1) assms(1) by (simp add: boundary_def take_Suc_conv_app_nth)
  with i(3,4) have "0 < weights ! i" by simp
  with i(1,2) show ?thesis by blast
qed

theorem positive_weight_returned_witness:
  "length [''a'', ''b'', ''c''] = length [1 / 2, 0, 1 / 2 :: rat] \<and>
   (0::rat) \<le> 1 / 2 \<and> (0::rat) \<le> 0 \<and> py_sum [1 / 2, 0, 1 / 2] = 1 \<and>
   (0::rat) \<le> 1 / 2 \<and> (1 / 2 :: rat) < 1 \<and>
   (\<exists>i<length [''a'', ''b'', ''c''].
      assign_bucket (1 / 2) [''a'', ''b'', ''c''] [1 / 2, 0, 1 / 2] = Inr ([''a'', ''b'', ''c''] ! i) \<and>
      0 < [1 / 2, 0, 1 / 2 :: rat] ! i)"
  using positive_weight_returned [of "[''a'', ''b'', ''c'']" "[1 / 2, 0, 1 / 2]" "1 / 2"]
  by (simp add: py_sum_def)

section \<open>Validation of the configuration\<close>









section \<open>Determinism and identifier rendering\<close>




end
